theory Spec2Isabelle
  imports Main "HOL-Library.Extended_Nat"
begin

section \<open>The TTL cache of the weather app (infrastructure/cache.ts)\<close>

text \<open>
  The cache keeps a JavaScript \<open>Map<string, CacheEntry<unknown>>\<close> in a reference cell.
  A JavaScript \<open>Map\<close> iterates in insertion order, \<open>set\<close> on a key that is present keeps
  the key's position, and \<open>set\<close> on a new key appends it; the eviction scan depends on that
  order, so the map is an association list in iteration order. Dates are their
  \<open>getTime()\<close> readings, integers in milliseconds; every operation takes the reading of
  \<open>new Date()\<close> it makes as its argument \<open>now\<close>. The numbers \<open>maxSize\<close>, \<open>ttlSeconds\<close>
  and \<open>accessCount\<close> are taken at integer values, on which the arithmetic of the source
  is exact. The payload type is a type variable: the cache never looks inside a value.
\<close>

subsection \<open>Data\<close>

record 'v CacheEntry =
  entry_value :: 'v
  cachedAt :: int
  expiresAt :: int
  accessCount :: nat

type_synonym 'v CacheState = "(string \<times> 'v CacheEntry) list"

record CacheConfig =
  enabled :: bool
  ttlSeconds :: int
  maxSize :: int

text \<open>The three tagged errors: key; key, cachedAt, expiresAt; maxSize, currentSize.\<close>

datatype CacheError =
    CacheMissError string
  | CacheExpiredError string int int
  | CacheFullError int nat

subsection \<open>The operations of the JavaScript Map that the cache calls\<close>

definition Map_get :: "'v CacheState \<Rightarrow> string \<Rightarrow> 'v CacheEntry option" where
  "Map_get s key = map_of s key"

definition Map_has :: "'v CacheState \<Rightarrow> string \<Rightarrow> bool" where
  "Map_has s key = (map_of s key \<noteq> None)"

primrec Map_delete :: "string \<Rightarrow> 'v CacheState \<Rightarrow> 'v CacheState" where
  "Map_delete key [] = []"
| "Map_delete key (p # ps) = (if fst p = key then Map_delete key ps else p # Map_delete key ps)"

primrec Map_set :: "string \<Rightarrow> 'v CacheEntry \<Rightarrow> 'v CacheState \<Rightarrow> 'v CacheState" where
  "Map_set key e [] = [(key, e)]"
| "Map_set key e (p # ps) = (if fst p = key then (key, e) # ps else p # Map_set key e ps)"

text \<open>A list stands for a \<open>Map\<close> when no key occurs twice.\<close>

definition wf_state :: "'v CacheState \<Rightarrow> bool" where
  "wf_state s = distinct (map fst s)"

subsection \<open>get\<close>

text \<open>
  The update on a hit: \<open>const updated = s.get(key); if (updated) updated.accessCount++\<close>.
  The entry object is changed in place, so it keeps its position in the map.
\<close>

primrec touch :: "string \<Rightarrow> 'v CacheState \<Rightarrow> 'v CacheState" where
  "touch key [] = []"
| "touch key (p # ps) =
     (if fst p = key then (fst p, (snd p)\<lparr>accessCount := accessCount (snd p) + 1\<rparr>) # ps
      else p # touch key ps)"

definition get :: "int \<Rightarrow> string \<Rightarrow> 'v CacheState \<Rightarrow> (CacheError + 'v) \<times> 'v CacheState" where
  "get now key state =
     (case Map_get state key of
        None \<Rightarrow> (Inl (CacheMissError key), state)
      | Some entry \<Rightarrow>
          if expiresAt entry < now
          then (Inl (CacheExpiredError key (cachedAt entry) (expiresAt entry)),
                Map_delete key state)
          else (Inr (entry_value entry), touch key state))"

subsection \<open>set\<close>

text \<open>
  The eviction scan: the loop over \<open>state.entries()\<close> with its two variables \<open>lruKey\<close>
  (initially \<open>null\<close>) and \<open>minAccessCount\<close> (initially \<open>Infinity\<close>).
\<close>

fun evict_scan :: "'v CacheState \<Rightarrow> string option \<Rightarrow> enat \<Rightarrow> string option" where
  "evict_scan [] lruKey minAccessCount = lruKey"
| "evict_scan ((k, entry) # rest) lruKey minAccessCount =
     (if enat (accessCount entry) < minAccessCount
      then evict_scan rest (Some k) (enat (accessCount entry))
      else evict_scan rest lruKey minAccessCount)"

text \<open>
  \<open>if (lruKey)\<close> tests the truthiness of a \<open>string | null\<close>: \<open>null\<close> and the empty string
  are falsy, every other string is truthy.
\<close>

definition truthy :: "string option \<Rightarrow> bool" where
  "truthy lruKey = (case lruKey of None \<Rightarrow> False | Some k \<Rightarrow> k \<noteq> [])"

definition new_entry :: "CacheConfig \<Rightarrow> int \<Rightarrow> 'v \<Rightarrow> 'v CacheEntry" where
  "new_entry config now v =
     \<lparr>entry_value = v, cachedAt = now, expiresAt = now + ttlSeconds config * 1000,
      accessCount = 0\<rparr>"

text \<open>
  A \<open>Date\<close> holds a time value only within 8.64e15 milliseconds of the epoch; beyond
  that \<open>new Date(ms)\<close> is an invalid date, whose comparison with any reading is false.
  The integer \<open>now + ttlSeconds * 1000\<close> of \<open>new_entry\<close> is the time value of the
  source's \<open>expiresAt\<close> where it lies in that range, and a statement about expiry is made
  for readings in the range.
\<close>

definition valid_Date :: "int \<Rightarrow> bool" where
  "valid_Date t = (- 8640000000000000 \<le> t \<and> t \<le> 8640000000000000)"

definition set_op ::
  "CacheConfig \<Rightarrow> int \<Rightarrow> string \<Rightarrow> 'v \<Rightarrow> 'v CacheState \<Rightarrow> (CacheError + unit) \<times> 'v CacheState" where
  "set_op config now key v state =
     (if \<not> enabled config then (Inr (), state)
      else if maxSize config \<le> int (length state) \<and> \<not> Map_has state key then
        (case evict_scan state None \<infinity> of
           None \<Rightarrow> (Inl (CacheFullError (maxSize config) (length state)), state)
         | Some lruKey \<Rightarrow>
             if truthy (Some lruKey)
             then (Inr (), Map_set key (new_entry config now v) (Map_delete lruKey state))
             else (Inl (CacheFullError (maxSize config) (length state)), state))
      else (Inr (), Map_set key (new_entry config now v) state))"

subsection \<open>clear and size\<close>

definition clear :: "'v CacheState \<Rightarrow> 'v CacheState" where
  "clear state = []"

definition size_op :: "'v CacheState \<Rightarrow> nat" where
  "size_op state = length state"

subsection \<open>Sequences of calls\<close>

text \<open>
  A caller's sequence of calls, each with the clock reading it makes, run one after the
  other on the state of the reference cell; \<open>makeCache\<close> starts from the empty map.
\<close>

datatype 'v Call = Get string | Set string 'v | Clear | Size

datatype 'v Reply = Value 'v | Void | Count nat

fun exec ::
  "CacheConfig \<Rightarrow> int \<times> 'v Call \<Rightarrow> 'v CacheState \<Rightarrow> (CacheError + 'v Reply) \<times> 'v CacheState" where
  "exec config (now, Get key) state =
     (case get now key state of
        (Inl e, state') \<Rightarrow> (Inl e, state')
      | (Inr v, state') \<Rightarrow> (Inr (Value v), state'))"
| "exec config (now, Set key v) state =
     (case set_op config now key v state of
        (Inl e, state') \<Rightarrow> (Inl e, state')
      | (Inr u, state') \<Rightarrow> (Inr Void, state'))"
| "exec config (now, Clear) state = (Inr Void, clear state)"
| "exec config (now, Size) state = (Inr (Count (size_op state)), state)"

fun run ::
  "CacheConfig \<Rightarrow> (int \<times> 'v Call) list \<Rightarrow> 'v CacheState
    \<Rightarrow> (CacheError + 'v Reply) list \<times> 'v CacheState" where
  "run config [] state = ([], state)"
| "run config (c # cs) state =
     (case exec config c state of
        (r, state') \<Rightarrow> (case run config cs state' of (rs, state'') \<Rightarrow> (r # rs, state'')))"

definition makeCache :: "'v CacheState" where
  "makeCache = []"

text \<open>
  Vocabulary for statements about sequences: whether a call stores under a key, the calls
  \<open>set(k1, v1), ..., set(kn, vn)\<close> made at given clock readings, and the entries they
  create.
\<close>

fun sets_key :: "string \<Rightarrow> int \<times> 'v Call \<Rightarrow> bool" where
  "sets_key k (now, Set key v) = (key = k)"
| "sets_key k (now, Get key) = False"
| "sets_key k (now, Clear) = False"
| "sets_key k (now, Size) = False"

definition set_calls :: "(int \<times> string \<times> 'v) list \<Rightarrow> (int \<times> 'v Call) list" where
  "set_calls kvs = map (\<lambda>(now, key, v). (now, Set key v)) kvs"

definition set_entries :: "CacheConfig \<Rightarrow> (int \<times> string \<times> 'v) list \<Rightarrow> 'v CacheState" where
  "set_entries config kvs = map (\<lambda>(now, key, v). (key, new_entry config now v)) kvs"

section \<open>Facts about the map operations and the scan\<close>

subsection \<open>Lookup, keys and size after each map operation\<close>

lemma map_of_Map_set: "map_of (Map_set k e s) = (map_of s)(k \<mapsto> e)"
  by (induction s) auto

lemma map_of_Map_delete: "map_of (Map_delete k s) = (map_of s)(k := None)"
  by (induction s) auto

lemma map_of_touch:
  "map_of (touch k s) k' =
     (if k' = k then map_option (\<lambda>e. e\<lparr>accessCount := accessCount e + 1\<rparr>) (map_of s k)
      else map_of s k')"
  by (induction s) auto

lemma keys_touch: "map fst (touch k s) = map fst s"
  by (induction s) auto

lemma length_touch: "length (touch k s) = length s"
  by (induction s) auto

lemma length_Map_set:
  "length (Map_set k e s) = (if map_of s k = None then Suc (length s) else length s)"
  by (induction s) auto

lemma Map_set_absent: "map_of s k = None \<Longrightarrow> Map_set k e s = s @ [(k, e)]"
  by (induction s) (auto split: if_splits)

lemma keys_Map_set: "fst ` set (Map_set k e s) = insert k (fst ` set s)"
  by (induction s) auto

lemma keys_Map_delete: "fst ` set (Map_delete k s) = fst ` set s - {k}"
  by (induction s) auto

lemma length_Map_delete_le: "length (Map_delete k s) \<le> length s"
  by (induction s) auto

lemma length_Map_delete_less: "k \<in> fst ` set s \<Longrightarrow> length (Map_delete k s) < length s"
proof (induction s)
  case Nil
  then show ?case by simp
next
  case (Cons p ps)
  show ?case
  proof (cases "fst p = k")
    case True
    then show ?thesis using length_Map_delete_le[of k ps] by simp
  next
    case False
    then have "k \<in> fst ` set ps" using Cons.prems by auto
    then show ?thesis using Cons.IH False by simp
  qed
qed

lemma Map_delete_absent: "k \<notin> fst ` set s \<Longrightarrow> Map_delete k s = s"
  by (induction s) auto

lemma Map_delete_split:
  "distinct (map fst (pre @ (k, e) # post)) \<Longrightarrow> Map_delete k (pre @ (k, e) # post) = pre @ post"
  by (induction pre) (auto simp: Map_delete_absent)

lemma wf_Map_set: "wf_state s \<Longrightarrow> wf_state (Map_set k e s)"
  unfolding wf_state_def by (induction s) (auto simp: keys_Map_set)

lemma wf_Map_delete: "wf_state s \<Longrightarrow> wf_state (Map_delete k s)"
  unfolding wf_state_def by (induction s) (auto simp: keys_Map_delete)

lemma wf_touch: "wf_state s \<Longrightarrow> wf_state (touch k s)"
  by (simp add: wf_state_def keys_touch)

subsection \<open>The eviction scan\<close>

text \<open>
  Started with \<open>lruKey\<close> = \<open>l\<close> and \<open>minAccessCount\<close> = \<open>m\<close>, the scan either meets no
  entry below \<open>m\<close> and returns \<open>l\<close>, or returns the key of the first entry whose count is
  the least: every entry before it has a strictly higher count, every entry after it a
  count at least as high.
\<close>

lemma evict_scan_split:
  "(evict_scan s l m = l \<and> (\<forall>p \<in> set s. m \<le> enat (accessCount (snd p)))) \<or>
   (\<exists>pre k e post. s = pre @ (k, e) # post \<and> evict_scan s l m = Some k \<and>
      enat (accessCount e) < m \<and>
      (\<forall>p \<in> set pre. accessCount e < accessCount (snd p)) \<and>
      (\<forall>p \<in> set post. accessCount e \<le> accessCount (snd p)))"
proof (induction s arbitrary: l m)
  case Nil
  then show ?case by simp
next
  case (Cons a rest)
  obtain k e where a: "a = (k, e)" by (cases a)
  show ?case
  proof (cases "enat (accessCount e) < m")
    case True
    from Cons.IH[of "Some k" "enat (accessCount e)"]
    show ?thesis
    proof
      assume h: "evict_scan rest (Some k) (enat (accessCount e)) = Some k \<and>
        (\<forall>p\<in>set rest. enat (accessCount e) \<le> enat (accessCount (snd p)))"
      have "a # rest = [] @ (k, e) # rest \<and> evict_scan (a # rest) l m = Some k \<and>
        enat (accessCount e) < m \<and> (\<forall>p \<in> set []. accessCount e < accessCount (snd p)) \<and>
        (\<forall>p \<in> set rest. accessCount e \<le> accessCount (snd p))"
        using h True a by simp
      then show ?thesis by blast
    next
      assume "\<exists>pre k' e' post. rest = pre @ (k', e') # post \<and>
        evict_scan rest (Some k) (enat (accessCount e)) = Some k' \<and>
        enat (accessCount e') < enat (accessCount e) \<and>
        (\<forall>p \<in> set pre. accessCount e' < accessCount (snd p)) \<and>
        (\<forall>p \<in> set post. accessCount e' \<le> accessCount (snd p))"
      then obtain pre k' e' post where h: "rest = pre @ (k', e') # post"
        "evict_scan rest (Some k) (enat (accessCount e)) = Some k'"
        "enat (accessCount e') < enat (accessCount e)"
        "\<forall>p \<in> set pre. accessCount e' < accessCount (snd p)"
        "\<forall>p \<in> set post. accessCount e' \<le> accessCount (snd p)" by blast
      have "a # rest = (a # pre) @ (k', e') # post \<and> evict_scan (a # rest) l m = Some k' \<and>
        enat (accessCount e') < m \<and> (\<forall>p \<in> set (a # pre). accessCount e' < accessCount (snd p)) \<and>
        (\<forall>p \<in> set post. accessCount e' \<le> accessCount (snd p))"
        using h True a less_trans[OF h(3) True] by auto
      then show ?thesis by blast
    qed
  next
    case False
    from Cons.IH[of l m]
    show ?thesis
    proof
      assume "evict_scan rest l m = l \<and> (\<forall>p\<in>set rest. m \<le> enat (accessCount (snd p)))"
      then show ?thesis using False a by auto
    next
      assume "\<exists>pre k' e' post. rest = pre @ (k', e') # post \<and>
        evict_scan rest l m = Some k' \<and>
        enat (accessCount e') < m \<and>
        (\<forall>p \<in> set pre. accessCount e' < accessCount (snd p)) \<and>
        (\<forall>p \<in> set post. accessCount e' \<le> accessCount (snd p))"
      then obtain pre k' e' post where h: "rest = pre @ (k', e') # post"
        "evict_scan rest l m = Some k'"
        "enat (accessCount e') < m"
        "\<forall>p \<in> set pre. accessCount e' < accessCount (snd p)"
        "\<forall>p \<in> set post. accessCount e' \<le> accessCount (snd p)" by blast
      have "enat (accessCount e') < enat (accessCount e)"
        using False h(3) by (meson leI less_le_trans)
      then have "a # rest = (a # pre) @ (k', e') # post \<and> evict_scan (a # rest) l m = Some k' \<and>
        enat (accessCount e') < m \<and> (\<forall>p \<in> set (a # pre). accessCount e' < accessCount (snd p)) \<and>
        (\<forall>p \<in> set post. accessCount e' \<le> accessCount (snd p))"
        using h False a by auto
      then show ?thesis by blast
    qed
  qed
qed


lemma evict_scan_start:
  assumes "s \<noteq> []"
  shows "\<exists>pre k e post. s = pre @ (k, e) # post \<and> evict_scan s None \<infinity> = Some k \<and>
      (\<forall>p \<in> set pre. accessCount e < accessCount (snd p)) \<and>
      (\<forall>p \<in> set post. accessCount e \<le> accessCount (snd p))"
proof -
  from assms have "hd s \<in> set s" by simp
  moreover have "\<not> \<infinity> \<le> enat (accessCount (snd (hd s)))" by simp
  ultimately have "\<not> (\<forall>p \<in> set s. \<infinity> \<le> enat (accessCount (snd p)))" by blast
  with evict_scan_split[of s None \<infinity>] show ?thesis by blast
qed

lemma evict_scan_empty: "evict_scan [] None \<infinity> = None"
  by simp

subsection \<open>The branches of set and get\<close>

lemma set_op_disabled: "\<not> enabled config \<Longrightarrow> set_op config now key v state = (Inr (), state)"
  by (simp add: set_op_def)

lemma set_op_room:
  "enabled config \<Longrightarrow> int (length state) < maxSize config \<or> Map_has state key \<Longrightarrow>
   set_op config now key v state = (Inr (), Map_set key (new_entry config now v) state)"
  by (auto simp: set_op_def)

lemma set_op_full:
  "enabled config \<Longrightarrow> maxSize config \<le> int (length state) \<Longrightarrow> \<not> Map_has state key \<Longrightarrow>
   set_op config now key v state =
     (case evict_scan state None \<infinity> of
        None \<Rightarrow> (Inl (CacheFullError (maxSize config) (length state)), state)
      | Some lruKey \<Rightarrow>
          if lruKey \<noteq> []
          then (Inr (), Map_set key (new_entry config now v) (Map_delete lruKey state))
          else (Inl (CacheFullError (maxSize config) (length state)), state))"
  by (simp add: set_op_def truthy_def split: option.splits)

lemma set_op_error:
  "set_op config now key v state = (Inl err, state') \<Longrightarrow>
   state' = state \<and> err = CacheFullError (maxSize config) (length state) \<and> enabled config \<and>
   maxSize config \<le> int (length state) \<and> \<not> Map_has state key \<and>
   \<not> truthy (evict_scan state None \<infinity>)"
  by (auto simp: set_op_def truthy_def split: if_splits option.splits)

lemma set_op_succeeds_iff:
  "enabled config \<Longrightarrow>
   fst (set_op config now key v state) = Inr () \<longleftrightarrow>
     int (length state) < maxSize config \<or> Map_has state key \<or>
     truthy (evict_scan state None \<infinity>)"
  by (auto simp: set_op_def truthy_def split: if_splits option.splits)

lemma set_op_stored:
  "enabled config \<Longrightarrow> set_op config now key v state = (Inr (), state') \<Longrightarrow>
   Map_get state' key = Some (new_entry config now v)"
  by (auto simp: set_op_def Map_get_def map_of_Map_set split: if_splits option.splits)

lemma set_op_evicts:
  assumes en: "enabled config" and wf: "wf_state state"
    and full: "maxSize config \<le> int (length state)" and new: "\<not> Map_has state key"
    and ok: "set_op config now key v state = (Inr (), state')"
  shows "\<exists>pre k e post. state = pre @ (k, e) # post \<and> k \<noteq> [] \<and>
      (\<forall>p \<in> set pre. accessCount e < accessCount (snd p)) \<and>
      (\<forall>p \<in> set post. accessCount e \<le> accessCount (snd p)) \<and>
      state' = pre @ post @ [(key, new_entry config now v)]"
proof -
  have ne: "state \<noteq> []"
    using ok set_op_full[OF en full new, of now v] by (auto simp: evict_scan_empty)
  from evict_scan_start[OF ne] obtain pre k e post where
    sp: "state = pre @ (k, e) # post" and sc: "evict_scan state None \<infinity> = Some k" and
    lo: "\<forall>p \<in> set pre. accessCount e < accessCount (snd p)" and
    hi: "\<forall>p \<in> set post. accessCount e \<le> accessCount (snd p)" by blast
  from ok set_op_full[OF en full new, of now v] sc
  have k: "k \<noteq> []" and st: "state' = Map_set key (new_entry config now v) (Map_delete k state)"
    by (auto split: if_splits)
  have del: "Map_delete k state = pre @ post"
    using wf sp Map_delete_split[of pre k e post] by (simp add: wf_state_def)
  have "map_of (pre @ post) key = None"
    using new del map_of_Map_delete[of k state] by (auto simp: Map_has_def split: if_splits)
  then have "state' = pre @ post @ [(key, new_entry config now v)]"
    using st del Map_set_absent[of "pre @ post" key] by simp
  with sp k lo hi show ?thesis by blast
qed

lemma get_miss: "Map_get state key = None \<Longrightarrow> get now key state = (Inl (CacheMissError key), state)"
  by (simp add: get_def)

lemma get_expired:
  "Map_get state key = Some entry \<Longrightarrow> expiresAt entry < now \<Longrightarrow>
   get now key state =
     (Inl (CacheExpiredError key (cachedAt entry) (expiresAt entry)), Map_delete key state)"
  by (simp add: get_def)

lemma get_hit:
  "Map_get state key = Some entry \<Longrightarrow> now \<le> expiresAt entry \<Longrightarrow>
   get now key state = (Inr (entry_value entry), touch key state)"
  by (simp add: get_def)

subsection \<open>Sequences of calls: keys, well-formedness, a disabled cache\<close>

lemma keyset_touch: "fst ` set (touch k s) = fst ` set s"
  using keys_touch[of k s] by (metis list.set_map)

lemma keys_get: "fst ` set (snd (get now key state)) \<subseteq> fst ` set state"
  by (auto simp: get_def keys_Map_delete keyset_touch split: option.splits)

lemma keys_set_op:
  "fst ` set (snd (set_op config now key v state)) \<subseteq> insert key (fst ` set state)"
  by (auto simp: set_op_def keys_Map_set keys_Map_delete split: option.splits if_splits)

lemma keys_exec:
  "k \<in> fst ` set (snd (exec config c state)) \<Longrightarrow> k \<in> fst ` set state \<or> sets_key k c"
proof (cases c)
  case (Pair now call)
  assume k: "k \<in> fst ` set (snd (exec config c state))"
  show ?thesis
  proof (cases call)
    case (Get key)
    then show ?thesis using k Pair keys_get[of now key state]
      by (auto split: prod.splits sum.splits)
  next
    case (Set key v)
    then show ?thesis using k Pair keys_set_op[of config now key v state]
      by (auto split: prod.splits sum.splits)
  next
    case Clear
    then show ?thesis using k Pair by (simp add: clear_def)
  next
    case Size
    then show ?thesis using k Pair by simp
  qed
qed

lemma run_Cons:
  "run config (c # cs) state =
     (fst (exec config c state) # fst (run config cs (snd (exec config c state))),
      snd (run config cs (snd (exec config c state))))"
  by (simp split: prod.splits)

lemma run_append:
  "run config (cs @ ds) state =
     (fst (run config cs state) @ fst (run config ds (snd (run config cs state))),
      snd (run config ds (snd (run config cs state))))"
  by (induction cs arbitrary: state) (simp_all add: run_Cons del: run.simps(2))

lemma run_snoc_state:
  "snd (run config (cs @ [c]) state) = snd (exec config c (snd (run config cs state)))"
  by (simp add: run_append run_Cons del: run.simps(2))

lemma keys_run:
  "k \<in> fst ` set (snd (run config cs state)) \<Longrightarrow>
   k \<in> fst ` set state \<or> (\<exists>c \<in> set cs. sets_key k c)"
proof (induction cs arbitrary: state)
  case Nil
  then show ?case by simp
next
  case (Cons c cs)
  have "snd (run config (c # cs) state) = snd (run config cs (snd (exec config c state)))"
    by (simp split: prod.splits)
  with Cons.prems Cons.IH[of "snd (exec config c state)"]
  have "k \<in> fst ` set (snd (exec config c state)) \<or> (\<exists>c \<in> set cs. sets_key k c)" by simp
  then show ?case using keys_exec[of k config c state] by auto
qed

lemma wf_get: "wf_state state \<Longrightarrow> wf_state (snd (get now key state))"
  by (auto simp: get_def wf_Map_delete wf_touch split: option.splits)

lemma wf_set_op: "wf_state state \<Longrightarrow> wf_state (snd (set_op config now key v state))"
  by (auto simp: set_op_def wf_Map_delete wf_Map_set split: option.splits)

lemma wf_exec: "wf_state state \<Longrightarrow> wf_state (snd (exec config c state))"
proof (cases c)
  case (Pair now call)
  assume wf: "wf_state state"
  show ?thesis
  proof (cases call)
    case (Get key)
    then show ?thesis using Pair wf_get[OF wf, of now key]
      by (auto split: prod.splits sum.splits)
  next
    case (Set key v)
    then show ?thesis using Pair wf_set_op[OF wf, of config now key v]
      by (auto split: prod.splits sum.splits)
  next
    case Clear
    then show ?thesis using Pair by (simp add: clear_def wf_state_def)
  next
    case Size
    then show ?thesis using Pair wf by simp
  qed
qed

lemma wf_run: "wf_state state \<Longrightarrow> wf_state (snd (run config cs state))"
proof (induction cs arbitrary: state)
  case Nil
  then show ?case by simp
next
  case (Cons c cs)
  have "snd (run config (c # cs) state) = snd (run config cs (snd (exec config c state)))"
    by (simp split: prod.splits)
  then show ?case using Cons.IH[OF wf_exec[OF Cons.prems]] by simp
qed

lemma wf_makeCache: "wf_state makeCache"
  by (simp add: makeCache_def wf_state_def)

lemma exec_disabled_empty: "\<not> enabled config \<Longrightarrow> snd (exec config c []) = []"
proof (cases c)
  case (Pair now call)
  assume "\<not> enabled config"
  then show ?thesis using Pair
    by (cases call) (simp_all add: get_def Map_get_def set_op_def clear_def)
qed

lemma run_disabled_empty: "\<not> enabled config \<Longrightarrow> snd (run config cs []) = []"
proof (induction cs rule: rev_induct)
  case Nil
  then show ?case by simp
next
  case (snoc c cs)
  then show ?case by (simp add: run_snoc_state exec_disabled_empty)
qed

lemma run_set_calls:
  assumes en: "enabled config"
  shows "distinct (map fst state @ map (\<lambda>p. fst (snd p)) kvs) \<Longrightarrow>
     int (length state + length kvs) \<le> maxSize config \<Longrightarrow>
     run config (set_calls kvs) state =
       (replicate (length kvs) (Inr Void), state @ set_entries config kvs)"
proof (induction kvs arbitrary: state)
  case Nil
  then show ?case by (simp add: set_calls_def set_entries_def)
next
  case (Cons a kvs)
  obtain now key v where a: "a = (now, key, v)" by (cases a)
  have absent: "map_of state key = None"
    using Cons.prems(1) a by (auto simp: map_of_eq_None_iff)
  have room: "int (length state) < maxSize config" using Cons.prems(2) by simp
  have step: "set_op config now key v state = (Inr (), state @ [(key, new_entry config now v)])"
    using set_op_room[OF en, of state key now v] room Map_set_absent[OF absent] by simp
  have "distinct (map fst (state @ [(key, new_entry config now v)]) @ map (\<lambda>p. fst (snd p)) kvs)"
    using Cons.prems(1) a by auto
  moreover have "int (length (state @ [(key, new_entry config now v)]) + length kvs) \<le> maxSize config"
    using Cons.prems(2) by simp
  ultimately have "run config (set_calls kvs) (state @ [(key, new_entry config now v)]) =
       (replicate (length kvs) (Inr Void),
        (state @ [(key, new_entry config now v)]) @ set_entries config kvs)"
    by (rule Cons.IH)
  then show ?case using step a by (simp add: set_calls_def set_entries_def)
qed

subsection \<open>The size after set, and CacheFull on a non-empty map\<close>

lemma evict_scan_member:
  "evict_scan state None \<infinity> = Some k \<Longrightarrow> k \<in> fst ` set state"
  using evict_scan_split[of state None \<infinity>] by force

lemma set_op_length:
  "int (length state) \<le> maxSize config \<Longrightarrow>
   int (length (snd (set_op config now key v state))) \<le> maxSize config"
proof (cases "enabled config \<and> maxSize config \<le> int (length state) \<and> \<not> Map_has state key")
  case False
  assume bound: "int (length state) \<le> maxSize config"
  show ?thesis
  proof (cases "enabled config")
    case True
    then have "set_op config now key v state =
        (Inr (), Map_set key (new_entry config now v) state)"
      using False by (intro set_op_room) auto
    then show ?thesis using bound False True
      by (auto simp: length_Map_set Map_has_def)
  next
    case False
    then show ?thesis using bound by (simp add: set_op_disabled)
  qed
next
  case True
  assume bound: "int (length state) \<le> maxSize config"
  show ?thesis
  proof (cases "evict_scan state None \<infinity>")
    case None
    then show ?thesis using True bound by (simp add: set_op_full)
  next
    case (Some k)
    have "length (Map_delete k state) < length state"
      using evict_scan_member[OF Some] by (rule length_Map_delete_less)
    then have "length (Map_set key (new_entry config now v) (Map_delete k state)) \<le> length state"
      by (simp add: length_Map_set)
    then show ?thesis using True bound Some by (simp add: set_op_full)
  qed
qed

lemma cache_full_nonempty:
  "set_op config now key v state = (Inl err, state') \<Longrightarrow> state \<noteq> [] \<Longrightarrow>
   evict_scan state None \<infinity> = Some []"
  using set_op_error[of config now key v state err state'] evict_scan_start[of state]
  by (auto simp: truthy_def)

section \<open>Eviction and the truthiness test\<close>

text \<open>
  C1. The claim: with the cache enabled, a \<open>set\<close> that finds the map non-empty and at
  capacity with the key absent always finds a victim, so it never fails with \<open>CacheFull\<close>.
  The code at a validated configuration (\<open>maxSize = 1\<close>, \<open>ttlSeconds = 300\<close>, enabled) and
  the calls \<open>set("", 1)\<close>, \<open>set("a", 2)\<close>: the second call finds the map non-empty and at
  capacity with \<open>"a"\<close> absent, the scan picks the only entry, whose key is the empty
  string, \<open>if (lruKey)\<close> is false for it, and the call fails with \<open>CacheFull(1, 1)\<close>,
  leaving the map as it was.
\<close>

theorem set_cache_full_on_empty_string_key:
  "run \<lparr>enabled = True, ttlSeconds = 300, maxSize = 1\<rparr>
       [(0, Set '''' (1::nat)), (1000, Set ''a'' 2)] makeCache
   = ([Inr Void, Inl (CacheFullError 1 1)],
      [('''', \<lparr>entry_value = 1, cachedAt = 0, expiresAt = 300000, accessCount = 0\<rparr>)])"
  by (simp add: makeCache_def set_op_def Map_has_def truthy_def new_entry_def)

section \<open>The round trip of set and get\<close>

text \<open>
  C2 as stated (from any prior state, \<open>set(k, v)\<close> then \<open>get(k)\<close> returns \<open>v\<close>) fails where
  \<open>set\<close> fails with \<open>CacheFull\<close>: with \<open>maxSize = 0\<close> on the empty map, where there is
  nothing to evict, and with \<open>maxSize = 1\<close> on the map that holds the key \<open>""\<close>. In both
  runs the \<open>get\<close> misses.
\<close>

theorem set_then_get_counterexample:
  "run \<lparr>enabled = True, ttlSeconds = 300, maxSize = 0\<rparr>
       [(0, Set ''k'' (7::nat)), (0, Get ''k'')] makeCache
     = ([Inl (CacheFullError 0 0), Inl (CacheMissError ''k'')], [])
   \<and> run \<lparr>enabled = True, ttlSeconds = 300, maxSize = 1\<rparr>
       [(0, Set '''' (1::nat)), (0, Set ''k'' 7), (0, Get ''k'')] makeCache
     = ([Inr Void, Inl (CacheFullError 1 1), Inl (CacheMissError ''k'')],
        [('''', \<lparr>entry_value = 1, cachedAt = 0, expiresAt = 300000, accessCount = 0\<rparr>)])"
  by (simp add: makeCache_def set_op_def get_def Map_get_def Map_has_def truthy_def new_entry_def)

text \<open>
  C2, amended. With \<open>enabled = true\<close> and \<open>ttlSeconds > 0\<close>, from any prior state: when
  \<open>set(k, v)\<close> returns without \<open>CacheFull\<close>, a \<open>get(k)\<close> at the same clock reading, with
  no call in between, succeeds and returns \<open>v\<close> (and counts the access).
\<close>

theorem set_then_get_returns_value:
  assumes "enabled config" and "0 < ttlSeconds config"
    and "set_op config now key v state = (Inr (), state')"
  shows "get now key state' = (Inr v, touch key state')"
proof -
  have "Map_get state' key = Some (new_entry config now v)"
    using assms(1,3) by (rule set_op_stored)
  moreover have "now \<le> expiresAt (new_entry config now v)"
    using assms(2) by (simp add: new_entry_def)
  ultimately show ?thesis
    using get_hit[of state' key "new_entry config now v" now] by (simp add: new_entry_def)
qed

theorem set_then_get_returns_value_witness:
  "set_op \<lparr>enabled = True, ttlSeconds = 300, maxSize = 1\<rparr> 5 ''b'' (7::nat)
      [(''a'', \<lparr>entry_value = 1, cachedAt = 0, expiresAt = 300000, accessCount = 0\<rparr>)]
     = (Inr (), [(''b'', \<lparr>entry_value = 7, cachedAt = 5, expiresAt = 300005, accessCount = 0\<rparr>)])
   \<and> get 5 ''b'' [(''b'', \<lparr>entry_value = 7::nat, cachedAt = 5, expiresAt = 300005, accessCount = 0\<rparr>)]
     = (Inr 7, [(''b'', \<lparr>entry_value = 7, cachedAt = 5, expiresAt = 300005, accessCount = 1\<rparr>)])"
proof -
  let ?config = "\<lparr>enabled = True, ttlSeconds = 300, maxSize = 1\<rparr>"
  let ?s = "[(''a'', \<lparr>entry_value = 1::nat, cachedAt = 0, expiresAt = 300000, accessCount = 0\<rparr>)]"
  let ?s' = "[(''b'', \<lparr>entry_value = 7::nat, cachedAt = 5, expiresAt = 300005, accessCount = 0\<rparr>)]"
  have en: "enabled ?config" and ttl: "0 < ttlSeconds ?config" by simp_all
  have st: "set_op ?config 5 ''b'' 7 ?s = (Inr (), ?s')"
    by (simp add: set_op_def Map_has_def truthy_def new_entry_def)
  from set_then_get_returns_value[OF en ttl st] st show ?thesis by simp
qed

section \<open>The capacity bound\<close>

text \<open>
  C3 as stated (the \<open>(N+1)\<close>th distinct key evicts exactly one entry) fails where the
  \<open>set\<close> fails with \<open>CacheFull\<close>: with \<open>N = 0\<close> there is no entry to evict, and with
  \<open>N = 2\<close>, after \<open>set("", 1)\<close>, \<open>set("b", 2)\<close>, \<open>get("b")\<close>, the call \<open>set("c", 3)\<close> evicts
  nothing and stores nothing.
\<close>

theorem overflow_set_counterexample:
  "run \<lparr>enabled = True, ttlSeconds = 300, maxSize = 0\<rparr>
       [(0, Size), (1000, Set ''a'' (1::nat)), (2000, Size)] makeCache
     = ([Inr (Count 0), Inl (CacheFullError 0 0), Inr (Count 0)], [])
   \<and> run \<lparr>enabled = True, ttlSeconds = 300, maxSize = 2\<rparr>
       [(0, Set '''' (1::nat)), (1000, Set ''b'' 2), (2000, Size), (3000, Get ''b''),
        (4000, Set ''c'' 3), (5000, Size)] makeCache
     = ([Inr Void, Inr Void, Inr (Count 2), Inr (Value 2), Inl (CacheFullError 2 2),
         Inr (Count 2)],
        [('''', \<lparr>entry_value = 1, cachedAt = 0, expiresAt = 300000, accessCount = 0\<rparr>),
         (''b'', \<lparr>entry_value = 2, cachedAt = 1000, expiresAt = 301000, accessCount = 1\<rparr>)])"
  by (simp add: makeCache_def set_op_def get_def Map_get_def Map_has_def truthy_def
      new_entry_def size_op_def)

text \<open>
  C3, amended. A map with at most \<open>maxSize\<close> entries has at most \<open>maxSize\<close> entries after
  a \<open>set\<close>, whether the \<open>set\<close> succeeds or fails. With \<open>enabled = true\<close> and \<open>maxSize = N\<close>,
  the \<open>set\<close>s of \<open>N\<close> distinct keys on the new cache all succeed and leave \<open>N\<close> entries.
  When the \<open>set\<close> of a further distinct key on a map of \<open>N\<close> entries returns without
  \<open>CacheFull\<close>, it has removed exactly one entry, the first in iteration order among
  those with the lowest \<open>accessCount\<close>, has appended the new entry, and the size is
  still \<open>N\<close>.
\<close>

theorem set_keeps_capacity:
  "(int (size_op state) \<le> maxSize config \<longrightarrow>
      int (size_op (snd (set_op config now key v state))) \<le> maxSize config) \<and>
   (enabled config \<and> distinct (map (\<lambda>p. fst (snd p)) kvs) \<and> int (length kvs) = maxSize config \<longrightarrow>
      run config (set_calls kvs) makeCache =
        (replicate (length kvs) (Inr Void), set_entries config kvs) \<and>
      size_op (set_entries config kvs) = length kvs) \<and>
   (enabled config \<and> wf_state state \<and> int (size_op state) = maxSize config \<and>
    \<not> Map_has state key \<and> set_op config now key v state = (Inr (), state') \<longrightarrow>
      (\<exists>pre k e post. state = pre @ (k, e) # post \<and>
         (\<forall>p \<in> set pre. accessCount e < accessCount (snd p)) \<and>
         (\<forall>p \<in> set post. accessCount e \<le> accessCount (snd p)) \<and>
         state' = pre @ post @ [(key, new_entry config now v)]) \<and>
      size_op state' = size_op state)"
proof (intro conjI impI)
  assume "int (size_op state) \<le> maxSize config"
  then show "int (size_op (snd (set_op config now key v state))) \<le> maxSize config"
    unfolding size_op_def by (rule set_op_length)
next
  assume h: "enabled config \<and> distinct (map (\<lambda>p. fst (snd p)) kvs) \<and>
    int (length kvs) = maxSize config"
  then show "run config (set_calls kvs) makeCache =
        (replicate (length kvs) (Inr Void), set_entries config kvs)"
    using run_set_calls[of config "[]" kvs] by (simp add: makeCache_def)
next
  show "size_op (set_entries config kvs) = length kvs"
    by (simp add: size_op_def set_entries_def)
next
  assume h: "enabled config \<and> wf_state state \<and> int (size_op state) = maxSize config \<and>
    \<not> Map_has state key \<and> set_op config now key v state = (Inr (), state')"
  then have full: "maxSize config \<le> int (length state)" by (simp add: size_op_def)
  from h full have "\<exists>pre k e post. state = pre @ (k, e) # post \<and> k \<noteq> [] \<and>
      (\<forall>p \<in> set pre. accessCount e < accessCount (snd p)) \<and>
      (\<forall>p \<in> set post. accessCount e \<le> accessCount (snd p)) \<and>
      state' = pre @ post @ [(key, new_entry config now v)]"
    by (intro set_op_evicts) auto
  then obtain pre k e post where sp: "state = pre @ (k, e) # post"
    "\<forall>p \<in> set pre. accessCount e < accessCount (snd p)"
    "\<forall>p \<in> set post. accessCount e \<le> accessCount (snd p)"
    "state' = pre @ post @ [(key, new_entry config now v)]" by blast
  then show "\<exists>pre k e post. state = pre @ (k, e) # post \<and>
         (\<forall>p \<in> set pre. accessCount e < accessCount (snd p)) \<and>
         (\<forall>p \<in> set post. accessCount e \<le> accessCount (snd p)) \<and>
         state' = pre @ post @ [(key, new_entry config now v)]" by blast
  from sp(1,4) show "size_op state' = size_op state" by (simp add: size_op_def)
qed

theorem set_keeps_capacity_witness:
  "int (size_op (snd (set_op \<lparr>enabled = True, ttlSeconds = 300, maxSize = 2\<rparr> 2000 ''c'' (3::nat)
      (set_entries \<lparr>enabled = True, ttlSeconds = 300, maxSize = 2\<rparr>
         [(0, ''a'', 1), (1000, ''b'', 2)])))) \<le> 2 \<and>
   run \<lparr>enabled = True, ttlSeconds = 300, maxSize = 2\<rparr>
       (set_calls [(0, ''a'', 1::nat), (1000, ''b'', 2)]) makeCache
     = ([Inr Void, Inr Void],
        [(''a'', \<lparr>entry_value = 1, cachedAt = 0, expiresAt = 300000, accessCount = 0\<rparr>),
         (''b'', \<lparr>entry_value = 2, cachedAt = 1000, expiresAt = 301000, accessCount = 0\<rparr>)]) \<and>
   (\<exists>pre k e post.
      [(''a'', \<lparr>entry_value = 1::nat, cachedAt = 0, expiresAt = 300000, accessCount = 0\<rparr>),
       (''b'', \<lparr>entry_value = 2, cachedAt = 1000, expiresAt = 301000, accessCount = 0\<rparr>)]
        = pre @ (k, e) # post \<and>
      (\<forall>p \<in> set pre. accessCount e < accessCount (snd p)) \<and>
      (\<forall>p \<in> set post. accessCount e \<le> accessCount (snd p)) \<and>
      [(''b'', \<lparr>entry_value = 2, cachedAt = 1000, expiresAt = 301000, accessCount = 0\<rparr>),
       (''c'', \<lparr>entry_value = 3, cachedAt = 2000, expiresAt = 302000, accessCount = 0\<rparr>)]
        = pre @ post @ [(''c'', new_entry \<lparr>enabled = True, ttlSeconds = 300, maxSize = 2\<rparr> 2000 3)])"
proof -
  let ?config = "\<lparr>enabled = True, ttlSeconds = 300, maxSize = 2\<rparr>"
  let ?kvs = "[(0, ''a'', 1::nat), (1000, ''b'', 2)]"
  let ?s2 = "[(''a'', \<lparr>entry_value = 1::nat, cachedAt = 0, expiresAt = 300000, accessCount = 0\<rparr>),
       (''b'', \<lparr>entry_value = 2, cachedAt = 1000, expiresAt = 301000, accessCount = 0\<rparr>)]"
  let ?s3 = "[(''b'', \<lparr>entry_value = 2::nat, cachedAt = 1000, expiresAt = 301000, accessCount = 0\<rparr>),
       (''c'', \<lparr>entry_value = 3, cachedAt = 2000, expiresAt = 302000, accessCount = 0\<rparr>)]"
  have ents: "set_entries ?config ?kvs = ?s2"
    by (simp add: set_entries_def new_entry_def)
  have a1: "int (size_op ?s2) \<le> maxSize ?config" by (simp add: size_op_def)
  have a2: "enabled ?config \<and> distinct (map (\<lambda>p. fst (snd p)) ?kvs) \<and>
      int (length ?kvs) = maxSize ?config" by simp
  have a3: "enabled ?config \<and> wf_state ?s2 \<and> int (size_op ?s2) = maxSize ?config \<and>
      \<not> Map_has ?s2 ''c'' \<and> set_op ?config 2000 ''c'' 3 ?s2 = (Inr (), ?s3)"
    by (simp add: wf_state_def size_op_def Map_has_def set_op_def truthy_def new_entry_def)
  from set_keeps_capacity[where state = ?s2 and config = ?config and now = 2000
      and key = "''c''" and v = 3 and kvs = ?kvs and state' = ?s3] a1 a2 a3
  show ?thesis unfolding ents by simp
qed

section \<open>Expiry\<close>

text \<open>
  C4 as stated (after \<open>set(k, v)\<close> at \<open>t0\<close>, a \<open>get(k)\<close> later than \<open>t0 + T\<close> fails with
  \<open>CacheExpired\<close>) fails where the \<open>set\<close> fails with \<open>CacheFull\<close> and stores nothing: with
  \<open>maxSize = 0\<close> on the empty map, and with \<open>maxSize = 1\<close> on the map that holds the key
  \<open>""\<close>. In both runs, with \<open>ttlSeconds = 300\<close>, the \<open>get(k)\<close> one millisecond past the
  time to live fails with \<open>CacheMiss(k)\<close>, not with \<open>CacheExpired\<close>.
\<close>

theorem expiry_after_set_counterexample:
  "run \<lparr>enabled = True, ttlSeconds = 300, maxSize = 0\<rparr>
       [(0, Set ''k'' (7::nat)), (300001, Get ''k'')] makeCache
     = ([Inl (CacheFullError 0 0), Inl (CacheMissError ''k'')], [])
   \<and> run \<lparr>enabled = True, ttlSeconds = 300, maxSize = 1\<rparr>
       [(0, Set '''' (1::nat)), (1000, Set ''k'' 7), (301001, Get ''k'')] makeCache
     = ([Inr Void, Inl (CacheFullError 1 1), Inl (CacheMissError ''k'')],
        [('''', \<lparr>entry_value = 1, cachedAt = 0, expiresAt = 300000, accessCount = 0\<rparr>)])"
  by (simp add: makeCache_def set_op_def get_def Map_get_def Map_has_def truthy_def new_entry_def)

text \<open>
  C4, amended. With the cache enabled and \<open>ttlSeconds = T\<close>: when \<open>set(k, v)\<close> at clock
  reading \<open>t0\<close> returns without \<open>CacheFull\<close>, and \<open>t0\<close>, the expiry time \<open>t0 + T\<close> seconds
  (\<open>t0 + 1000 T\<close> in the milliseconds of the readings) and the later reading \<open>t1\<close> are all
  within the range of \<open>Date\<close>, a \<open>get(k)\<close> at any such \<open>t1\<close> beyond \<open>t0 + T\<close> fails with
  \<open>CacheExpired(k, t0, t0 + T)\<close> and deletes the entry of \<open>k\<close>; a \<open>get(k)\<close> right after it,
  at any reading \<open>t2\<close>, fails with \<open>CacheMiss(k)\<close> and changes nothing.
\<close>

theorem get_after_ttl_expired:
  assumes "enabled config"
    and "set_op config t0 key v state = (Inr (), state1)"
    and "valid_Date t0" and "valid_Date (t0 + ttlSeconds config * 1000)" and "valid_Date t1"
    and "t0 + ttlSeconds config * 1000 < t1"
  shows "get t1 key state1 =
           (Inl (CacheExpiredError key t0 (t0 + ttlSeconds config * 1000)),
            Map_delete key state1) \<and>
         Map_get (Map_delete key state1) key = None \<and>
         get t2 key (Map_delete key state1) = (Inl (CacheMissError key), Map_delete key state1)"
proof -
  have stored: "Map_get state1 key = Some (new_entry config t0 v)"
    using assms(1,2) by (rule set_op_stored)
  have "expiresAt (new_entry config t0 v) < t1"
    using assms(6) by (simp add: new_entry_def)
  with stored have
    "get t1 key state1 =
       (Inl (CacheExpiredError key (cachedAt (new_entry config t0 v))
              (expiresAt (new_entry config t0 v))), Map_delete key state1)"
    by (rule get_expired)
  moreover have gone: "Map_get (Map_delete key state1) key = None"
    by (simp add: Map_get_def map_of_Map_delete)
  ultimately show ?thesis
    using get_miss[OF gone, of t2] by (simp add: new_entry_def)
qed

theorem get_after_ttl_expired_witness:
  "set_op \<lparr>enabled = True, ttlSeconds = 300, maxSize = 2\<rparr> 5 ''b'' (7::nat)
      [(''a'', \<lparr>entry_value = 1, cachedAt = 0, expiresAt = 300000, accessCount = 0\<rparr>)]
     = (Inr (),
        [(''a'', \<lparr>entry_value = 1, cachedAt = 0, expiresAt = 300000, accessCount = 0\<rparr>),
         (''b'', \<lparr>entry_value = 7, cachedAt = 5, expiresAt = 300005, accessCount = 0\<rparr>)])
   \<and> valid_Date 5 \<and> valid_Date 300005 \<and> valid_Date 300006
   \<and> get 300006 ''b''
        [(''a'', \<lparr>entry_value = 1::nat, cachedAt = 0, expiresAt = 300000, accessCount = 0\<rparr>),
         (''b'', \<lparr>entry_value = 7, cachedAt = 5, expiresAt = 300005, accessCount = 0\<rparr>)]
     = (Inl (CacheExpiredError ''b'' 5 300005),
        [(''a'', \<lparr>entry_value = 1, cachedAt = 0, expiresAt = 300000, accessCount = 0\<rparr>)])
   \<and> get 300006 ''b''
        [(''a'', \<lparr>entry_value = 1::nat, cachedAt = 0, expiresAt = 300000, accessCount = 0\<rparr>)]
     = (Inl (CacheMissError ''b''),
        [(''a'', \<lparr>entry_value = 1, cachedAt = 0, expiresAt = 300000, accessCount = 0\<rparr>)])"
proof -
  let ?config = "\<lparr>enabled = True, ttlSeconds = 300, maxSize = 2\<rparr>"
  let ?s = "[(''a'', \<lparr>entry_value = 1::nat, cachedAt = 0, expiresAt = 300000, accessCount = 0\<rparr>)]"
  let ?s1 = "[(''a'', \<lparr>entry_value = 1::nat, cachedAt = 0, expiresAt = 300000, accessCount = 0\<rparr>),
         (''b'', \<lparr>entry_value = 7, cachedAt = 5, expiresAt = 300005, accessCount = 0\<rparr>)]"
  have en: "enabled ?config" by simp
  have st: "set_op ?config 5 ''b'' 7 ?s = (Inr (), ?s1)"
    by (simp add: set_op_def Map_has_def new_entry_def)
  have d0: "valid_Date 5" and d1: "valid_Date (5 + ttlSeconds ?config * 1000)"
    and d2: "valid_Date 300006" by (simp_all add: valid_Date_def)
  have late: "5 + ttlSeconds ?config * 1000 < 300006" by simp
  from get_after_ttl_expired[OF en st d0 d1 d2 late, of 300006] st d0 d1 d2
  show ?thesis by simp
qed

section \<open>Which entry is evicted\<close>

text \<open>
  C5 as stated (a \<open>set\<close> at capacity with a new key deletes the first entry of minimal
  \<open>accessCount\<close>) fails where the \<open>set\<close> fails with \<open>CacheFull\<close>: on the empty map with
  \<open>maxSize = 0\<close>, and in the scenario of the claim with the key \<open>""\<close> in the place of
  \<open>"b"\<close> and \<open>"a"\<close> read once: the entry of \<open>""\<close> stays, and \<open>get("c")\<close> misses.
\<close>

theorem eviction_counterexample:
  "run \<lparr>enabled = True, ttlSeconds = 100, maxSize = 0\<rparr>
       [(0, Set ''c'' (3::nat))] makeCache
     = ([Inl (CacheFullError 0 0)], [])
   \<and> run \<lparr>enabled = True, ttlSeconds = 100, maxSize = 2\<rparr>
       [(0, Set ''a'' (1::nat)), (1000, Set '''' 2), (2000, Get ''a''), (3000, Set ''c'' 3),
        (4000, Get ''''), (5000, Get ''c'')] makeCache
     = ([Inr Void, Inr Void, Inr (Value 1), Inl (CacheFullError 2 2), Inr (Value 2),
         Inl (CacheMissError ''c'')],
        [(''a'', \<lparr>entry_value = 1, cachedAt = 0, expiresAt = 100000, accessCount = 1\<rparr>),
         ('''', \<lparr>entry_value = 2, cachedAt = 1000, expiresAt = 101000, accessCount = 1\<rparr>)])"
  by (simp add: makeCache_def set_op_def get_def Map_get_def Map_has_def truthy_def
      new_entry_def)

text \<open>
  C5, amended. When \<open>set\<close> finds the map at capacity with a new distinct key and returns
  without \<open>CacheFull\<close>, the entry it has deleted is the first in iteration order whose
  \<open>accessCount\<close> is minimal among all entries (every entry before it has a strictly
  higher count, every entry after it a count at least as high), and the new entry is
  appended. The scenario with \<open>maxSize = 2\<close>, \<open>ttlSeconds = 100\<close>: after \<open>set("a", 1)\<close>,
  \<open>set("b", 2)\<close>, \<open>size()\<close> is 2; after \<open>get("a")\<close> the counts are 1 for \<open>"a"\<close> and 0 for
  \<open>"b"\<close>; \<open>set("c", 3)\<close> evicts \<open>"b"\<close>; then \<open>get("b")\<close> fails with \<open>CacheMiss("b")\<close> and
  \<open>get("a")\<close>, \<open>get("c")\<close> succeed.
\<close>

theorem set_evicts_first_least_accessed:
  "(enabled config \<and> wf_state state \<and> maxSize config \<le> int (size_op state) \<and>
    \<not> Map_has state key \<and> set_op config now key v state = (Inr (), state') \<longrightarrow>
      (\<exists>pre k e post. state = pre @ (k, e) # post \<and>
         (\<forall>p \<in> set pre. accessCount e < accessCount (snd p)) \<and>
         (\<forall>p \<in> set post. accessCount e \<le> accessCount (snd p)) \<and>
         state' = pre @ post @ [(key, new_entry config now v)])) \<and>
   snd (run \<lparr>enabled = True, ttlSeconds = 100, maxSize = 2\<rparr>
       [(0, Set ''a'' (1::nat)), (1000, Set ''b'' 2), (2000, Size), (3000, Get ''a'')] makeCache)
     = [(''a'', \<lparr>entry_value = 1, cachedAt = 0, expiresAt = 100000, accessCount = 1\<rparr>),
        (''b'', \<lparr>entry_value = 2, cachedAt = 1000, expiresAt = 101000, accessCount = 0\<rparr>)] \<and>
   run \<lparr>enabled = True, ttlSeconds = 100, maxSize = 2\<rparr>
       [(0, Set ''a'' (1::nat)), (1000, Set ''b'' 2), (2000, Size), (3000, Get ''a''),
        (4000, Set ''c'' 3), (5000, Get ''b''), (6000, Get ''a''), (7000, Get ''c'')] makeCache
     = ([Inr Void, Inr Void, Inr (Count 2), Inr (Value 1), Inr Void,
         Inl (CacheMissError ''b''), Inr (Value 1), Inr (Value 3)],
        [(''a'', \<lparr>entry_value = 1, cachedAt = 0, expiresAt = 100000, accessCount = 2\<rparr>),
         (''c'', \<lparr>entry_value = 3, cachedAt = 4000, expiresAt = 104000, accessCount = 1\<rparr>)])"
proof (intro conjI impI)
  assume h: "enabled config \<and> wf_state state \<and> maxSize config \<le> int (size_op state) \<and>
    \<not> Map_has state key \<and> set_op config now key v state = (Inr (), state')"
  then have "\<exists>pre k e post. state = pre @ (k, e) # post \<and> k \<noteq> [] \<and>
      (\<forall>p \<in> set pre. accessCount e < accessCount (snd p)) \<and>
      (\<forall>p \<in> set post. accessCount e \<le> accessCount (snd p)) \<and>
      state' = pre @ post @ [(key, new_entry config now v)]"
    by (intro set_op_evicts) (auto simp: size_op_def)
  then show "\<exists>pre k e post. state = pre @ (k, e) # post \<and>
         (\<forall>p \<in> set pre. accessCount e < accessCount (snd p)) \<and>
         (\<forall>p \<in> set post. accessCount e \<le> accessCount (snd p)) \<and>
         state' = pre @ post @ [(key, new_entry config now v)]" by blast
next
  show "snd (run \<lparr>enabled = True, ttlSeconds = 100, maxSize = 2\<rparr>
       [(0, Set ''a'' (1::nat)), (1000, Set ''b'' 2), (2000, Size), (3000, Get ''a'')] makeCache)
     = [(''a'', \<lparr>entry_value = 1, cachedAt = 0, expiresAt = 100000, accessCount = 1\<rparr>),
        (''b'', \<lparr>entry_value = 2, cachedAt = 1000, expiresAt = 101000, accessCount = 0\<rparr>)]"
    by (simp add: makeCache_def set_op_def get_def Map_get_def Map_has_def truthy_def
        new_entry_def size_op_def)
next
  show "run \<lparr>enabled = True, ttlSeconds = 100, maxSize = 2\<rparr>
       [(0, Set ''a'' (1::nat)), (1000, Set ''b'' 2), (2000, Size), (3000, Get ''a''),
        (4000, Set ''c'' 3), (5000, Get ''b''), (6000, Get ''a''), (7000, Get ''c'')] makeCache
     = ([Inr Void, Inr Void, Inr (Count 2), Inr (Value 1), Inr Void,
         Inl (CacheMissError ''b''), Inr (Value 1), Inr (Value 3)],
        [(''a'', \<lparr>entry_value = 1, cachedAt = 0, expiresAt = 100000, accessCount = 2\<rparr>),
         (''c'', \<lparr>entry_value = 3, cachedAt = 4000, expiresAt = 104000, accessCount = 1\<rparr>)])"
    by (simp add: makeCache_def set_op_def get_def Map_get_def Map_has_def truthy_def
        new_entry_def size_op_def)
qed

theorem set_evicts_first_least_accessed_witness:
  "\<exists>pre k e post.
      [(''a'', \<lparr>entry_value = 1::nat, cachedAt = 0, expiresAt = 100000, accessCount = 1\<rparr>),
       (''b'', \<lparr>entry_value = 2, cachedAt = 1000, expiresAt = 101000, accessCount = 0\<rparr>)]
        = pre @ (k, e) # post \<and>
      (\<forall>p \<in> set pre. accessCount e < accessCount (snd p)) \<and>
      (\<forall>p \<in> set post. accessCount e \<le> accessCount (snd p)) \<and>
      [(''a'', \<lparr>entry_value = 1, cachedAt = 0, expiresAt = 100000, accessCount = 1\<rparr>),
       (''c'', \<lparr>entry_value = 3, cachedAt = 4000, expiresAt = 104000, accessCount = 0\<rparr>)]
        = pre @ post @ [(''c'', new_entry \<lparr>enabled = True, ttlSeconds = 100, maxSize = 2\<rparr> 4000 3)]"
proof -
  let ?config = "\<lparr>enabled = True, ttlSeconds = 100, maxSize = 2\<rparr>"
  let ?s = "[(''a'', \<lparr>entry_value = 1::nat, cachedAt = 0, expiresAt = 100000, accessCount = 1\<rparr>),
       (''b'', \<lparr>entry_value = 2, cachedAt = 1000, expiresAt = 101000, accessCount = 0\<rparr>)]"
  let ?s' = "[(''a'', \<lparr>entry_value = 1::nat, cachedAt = 0, expiresAt = 100000, accessCount = 1\<rparr>),
       (''c'', \<lparr>entry_value = 3, cachedAt = 4000, expiresAt = 104000, accessCount = 0\<rparr>)]"
  have a: "enabled ?config \<and> wf_state ?s \<and> maxSize ?config \<le> int (size_op ?s) \<and>
      \<not> Map_has ?s ''c'' \<and> set_op ?config 4000 ''c'' 3 ?s = (Inr (), ?s')"
    by (simp add: wf_state_def size_op_def Map_has_def set_op_def truthy_def new_entry_def)
  from set_evicts_first_least_accessed[where state = ?s and config = ?config and now = 4000
      and key = "''c''" and v = 3 and state' = ?s'] a
  show ?thesis by blast
qed

section \<open>A disabled cache\<close>

text \<open>
  C7. With \<open>enabled = false\<close>, \<open>set(k, v)\<close> returns successfully and returns the state it
  was given, for every key, value and state; every sequence of calls on the new cache
  leaves the map empty; and where \<open>k\<close> is absent, the \<open>get(k)\<close> after the \<open>set\<close> fails with
  \<open>CacheMiss(k)\<close>.
\<close>

theorem disabled_set_is_noop:
  assumes "\<not> enabled config"
  shows "set_op config now key v state = (Inr (), state) \<and>
         snd (run config calls makeCache) = [] \<and>
         (Map_get state key = None \<longrightarrow>
            get now' key (snd (set_op config now key v state)) = (Inl (CacheMissError key), state))"
  using assms
  by (simp add: set_op_disabled makeCache_def run_disabled_empty get_miss)

theorem disabled_set_is_noop_witness:
  "set_op \<lparr>enabled = False, ttlSeconds = 300, maxSize = 2\<rparr> 5 ''a'' (7::nat) [] = (Inr (), []) \<and>
   snd (run \<lparr>enabled = False, ttlSeconds = 300, maxSize = 2\<rparr>
          [(0, Set ''a'' (1::nat)), (1, Get ''a''), (2, Size)] makeCache) = [] \<and>
   get 6 ''a'' (snd (set_op \<lparr>enabled = False, ttlSeconds = 300, maxSize = 2\<rparr> 5 ''a'' (7::nat) []))
     = (Inl (CacheMissError ''a''), [])"
proof -
  let ?config = "\<lparr>enabled = False, ttlSeconds = 300, maxSize = 2\<rparr>"
  have dis: "\<not> enabled ?config" by simp
  have absent: "Map_get ([] :: nat CacheState) ''a'' = None" by (simp add: Map_get_def)
  from disabled_set_is_noop[OF dis, of 5 "''a''" 7 "[]" "[(0, Set ''a'' 1), (1, Get ''a''), (2, Size)]" 6]
    absent
  show ?thesis by blast
qed

section \<open>Hits and overwrites\<close>

text \<open>
  C8. A \<open>get(k)\<close> on an entry that has not expired returns the stored value as it is,
  adds exactly 1 to the \<open>accessCount\<close> of that entry, and changes no other entry and not
  the size. A \<open>set(k, v)\<close> on a key present in the map of a cache (any state that a
  sequence of calls reaches from the new cache) succeeds, leaves \<open>size()\<close> unchanged, and
  the entry of \<open>k\<close> is the new one, with \<open>accessCount\<close> 0.
\<close>

theorem hit_counts_and_overwrite_resets:
  "(Map_get state key = Some entry \<and> now \<le> expiresAt entry \<longrightarrow>
      get now key state = (Inr (entry_value entry), touch key state) \<and>
      Map_get (touch key state) key = Some (entry\<lparr>accessCount := accessCount entry + 1\<rparr>) \<and>
      (\<forall>k. k \<noteq> key \<longrightarrow> Map_get (touch key state) k = Map_get state k) \<and>
      size_op (touch key state) = size_op state) \<and>
   (state = snd (run config calls makeCache) \<and> Map_has state key \<longrightarrow>
      set_op config now key v state = (Inr (), Map_set key (new_entry config now v) state) \<and>
      size_op (Map_set key (new_entry config now v) state) = size_op state \<and>
      Map_get (Map_set key (new_entry config now v) state) key = Some (new_entry config now v) \<and>
      accessCount (new_entry config now v) = 0)"
proof (intro conjI impI allI)
  assume h: "Map_get state key = Some entry \<and> now \<le> expiresAt entry"
  then show "get now key state = (Inr (entry_value entry), touch key state)"
    by (simp add: get_hit)
  from h show "Map_get (touch key state) key =
      Some (entry\<lparr>accessCount := accessCount entry + 1\<rparr>)"
    by (simp add: Map_get_def map_of_touch)
next
  fix k :: string
  assume "k \<noteq> key"
  then show "Map_get (touch key state) k = Map_get state k"
    by (simp add: Map_get_def map_of_touch)
next
  show "size_op (touch key state) = size_op state"
    by (simp add: size_op_def length_touch)
next
  assume h: "state = snd (run config calls makeCache) \<and> Map_has state key"
  then have s: "state = snd (run config calls makeCache)" and has: "Map_has state key"
    by blast+
  have en: "enabled config"
  proof (rule ccontr)
    assume "\<not> enabled config"
    then have "snd (run config calls makeCache) = []"
      using run_disabled_empty[of config calls] by (simp add: makeCache_def)
    with s have "state = []" by simp
    with has show False by (simp add: Map_has_def)
  qed
  from has show "set_op config now key v state =
      (Inr (), Map_set key (new_entry config now v) state)"
    by (intro set_op_room en) simp
  from has show "size_op (Map_set key (new_entry config now v) state) = size_op state"
    by (simp add: size_op_def length_Map_set Map_has_def)
next
  show "Map_get (Map_set key (new_entry config now v) state) key =
      Some (new_entry config now v)"
    by (simp add: Map_get_def map_of_Map_set)
next
  show "accessCount (new_entry config now v) = 0"
    by (simp add: new_entry_def)
qed

theorem hit_counts_and_overwrite_resets_witness:
  "get 3000 ''a''
      [(''a'', \<lparr>entry_value = 1::nat, cachedAt = 0, expiresAt = 300000, accessCount = 1\<rparr>),
       (''b'', \<lparr>entry_value = 2, cachedAt = 1000, expiresAt = 301000, accessCount = 0\<rparr>)]
     = (Inr 1,
        [(''a'', \<lparr>entry_value = 1, cachedAt = 0, expiresAt = 300000, accessCount = 2\<rparr>),
         (''b'', \<lparr>entry_value = 2, cachedAt = 1000, expiresAt = 301000, accessCount = 0\<rparr>)]) \<and>
   set_op \<lparr>enabled = True, ttlSeconds = 300, maxSize = 2\<rparr> 3000 ''a'' 9
      [(''a'', \<lparr>entry_value = 1::nat, cachedAt = 0, expiresAt = 300000, accessCount = 1\<rparr>),
       (''b'', \<lparr>entry_value = 2, cachedAt = 1000, expiresAt = 301000, accessCount = 0\<rparr>)]
     = (Inr (),
        [(''a'', \<lparr>entry_value = 9, cachedAt = 3000, expiresAt = 303000, accessCount = 0\<rparr>),
         (''b'', \<lparr>entry_value = 2, cachedAt = 1000, expiresAt = 301000, accessCount = 0\<rparr>)]) \<and>
   size_op (Map_set ''a'' (new_entry \<lparr>enabled = True, ttlSeconds = 300, maxSize = 2\<rparr> 3000 9)
      [(''a'', \<lparr>entry_value = 1::nat, cachedAt = 0, expiresAt = 300000, accessCount = 1\<rparr>),
       (''b'', \<lparr>entry_value = 2, cachedAt = 1000, expiresAt = 301000, accessCount = 0\<rparr>)]) = 2"
proof -
  let ?config = "\<lparr>enabled = True, ttlSeconds = 300, maxSize = 2\<rparr>"
  let ?calls = "[(0, Set ''a'' (1::nat)), (1000, Set ''b'' 2), (2000, Get ''a'')]"
  let ?e = "\<lparr>entry_value = 1::nat, cachedAt = 0, expiresAt = 300000, accessCount = 1\<rparr>"
  let ?s = "[(''a'', ?e),
       (''b'', \<lparr>entry_value = 2, cachedAt = 1000, expiresAt = 301000, accessCount = 0\<rparr>)]"
  have reach: "?s = snd (run ?config ?calls makeCache)"
    by (simp add: makeCache_def set_op_def get_def Map_get_def Map_has_def new_entry_def)
  have a1: "Map_get ?s ''a'' = Some ?e \<and> 3000 \<le> expiresAt ?e"
    by (simp add: Map_get_def)
  have has: "Map_has ?s ''a''" by (simp add: Map_has_def)
  from reach has have a2: "?s = snd (run ?config ?calls makeCache) \<and> Map_has ?s ''a''"
    by (rule conjI)
  from hit_counts_and_overwrite_resets[where state = ?s and key = "''a''" and entry = ?e
      and now = 3000 and config = ?config and calls = ?calls and v = 9] a1 a2
  have "get 3000 ''a'' ?s = (Inr (entry_value ?e), touch ''a'' ?s) \<and>
      set_op ?config 3000 ''a'' 9 ?s = (Inr (), Map_set ''a'' (new_entry ?config 3000 9) ?s) \<and>
      size_op (Map_set ''a'' (new_entry ?config 3000 9) ?s) = size_op ?s"
    by blast
  then show ?thesis by (simp add: new_entry_def size_op_def)
qed

section \<open>Misses and clear\<close>

text \<open>
  C9. After any sequence of calls on the new cache in which no \<open>set\<close> names \<open>k\<close>,
  \<open>get(k)\<close> fails with \<open>CacheMiss(k)\<close> and changes nothing; the same holds after a
  \<open>clear()\<close> on any state, followed by any calls in which no \<open>set\<close> names \<open>k\<close>.
  \<open>clear()\<close> replaces the state by the empty map whatever the state was, and \<open>size()\<close>
  right after it returns 0.
\<close>

theorem unset_or_cleared_keys_miss:
  "((\<forall>c \<in> set calls. \<not> sets_key key c) \<longrightarrow>
      get now key (snd (run config calls makeCache)) =
        (Inl (CacheMissError key), snd (run config calls makeCache))) \<and>
   ((\<forall>c \<in> set calls. \<not> sets_key key c) \<longrightarrow>
      get now key (snd (run config ((t, Clear) # calls) state)) =
        (Inl (CacheMissError key), snd (run config ((t, Clear) # calls) state))) \<and>
   clear state = [] \<and>
   exec config (t, Clear) state = (Inr Void, []) \<and>
   exec config (t', Size) (clear state) = (Inr (Count 0), [])"
proof (intro conjI impI)
  assume never: "\<forall>c \<in> set calls. \<not> sets_key key c"
  have absent: "Map_get (snd (run config calls [])) key = None"
  proof (rule ccontr)
    assume "Map_get (snd (run config calls [])) key \<noteq> None"
    then have "key \<in> fst ` set (snd (run config calls []))"
      by (simp add: Map_get_def map_of_eq_None_iff)
    then show False using keys_run[of key config calls "[]"] never by simp
  qed
  then show "get now key (snd (run config calls makeCache)) =
        (Inl (CacheMissError key), snd (run config calls makeCache))"
    unfolding makeCache_def by (rule get_miss)
  have "snd (run config ((t, Clear) # calls) state) = snd (run config calls [])"
    by (simp add: run_Cons clear_def del: run.simps(2))
  then show "get now key (snd (run config ((t, Clear) # calls) state)) =
        (Inl (CacheMissError key), snd (run config ((t, Clear) # calls) state))"
    using get_miss[OF absent, of now] by simp
qed (simp_all add: clear_def size_op_def)

theorem unset_or_cleared_keys_miss_witness:
  "get 5000 ''b''
      (snd (run \<lparr>enabled = True, ttlSeconds = 300, maxSize = 2\<rparr>
              [(0, Set ''a'' (1::nat)), (1000, Get ''a'')] makeCache))
     = (Inl (CacheMissError ''b''),
        [(''a'', \<lparr>entry_value = 1, cachedAt = 0, expiresAt = 300000, accessCount = 1\<rparr>)]) \<and>
   get 5000 ''b''
      (snd (run \<lparr>enabled = True, ttlSeconds = 300, maxSize = 2\<rparr>
              [(500, Clear), (0, Set ''a'' (1::nat)), (1000, Get ''a'')]
              [(''b'', \<lparr>entry_value = 2, cachedAt = 100, expiresAt = 300100, accessCount = 0\<rparr>)]))
     = (Inl (CacheMissError ''b''),
        [(''a'', \<lparr>entry_value = 1, cachedAt = 0, expiresAt = 300000, accessCount = 1\<rparr>)])"
proof -
  let ?config = "\<lparr>enabled = True, ttlSeconds = 300, maxSize = 2\<rparr>"
  let ?calls = "[(0, Set ''a'' (1::nat)), (1000, Get ''a'')]"
  let ?state = "[(''b'', \<lparr>entry_value = 2::nat, cachedAt = 100, expiresAt = 300100, accessCount = 0\<rparr>)]"
  have never: "\<forall>c \<in> set ?calls. \<not> sets_key ''b'' c" by simp
  have r1: "snd (run ?config ?calls makeCache) =
      [(''a'', \<lparr>entry_value = 1, cachedAt = 0, expiresAt = 300000, accessCount = 1\<rparr>)]"
    by (simp add: makeCache_def set_op_def get_def Map_get_def Map_has_def new_entry_def)
  have r2: "snd (run ?config ((500, Clear) # ?calls) ?state) =
      [(''a'', \<lparr>entry_value = 1, cachedAt = 0, expiresAt = 300000, accessCount = 1\<rparr>)]"
    by (simp add: clear_def set_op_def get_def Map_get_def Map_has_def new_entry_def)
  from unset_or_cleared_keys_miss[where calls = ?calls and key = "''b''" and now = 5000
      and config = ?config and t = 500 and state = ?state] never
  have "get 5000 ''b'' (snd (run ?config ?calls makeCache)) =
        (Inl (CacheMissError ''b''), snd (run ?config ?calls makeCache)) \<and>
      get 5000 ''b'' (snd (run ?config ((500, Clear) # ?calls) ?state)) =
        (Inl (CacheMissError ''b''), snd (run ?config ((500, Clear) # ?calls) ?state))"
    by blast
  then show ?thesis unfolding r1 r2 by simp
qed

section \<open>Failed calls\<close>

text \<open>
  C10. A \<open>get\<close> that fails with \<open>CacheMiss\<close> returns the state it was given, and a \<open>set\<close>
  that fails with \<open>CacheFull\<close> returns the state it was given: nothing is evicted and
  nothing is inserted.
\<close>

theorem failed_calls_leave_state:
  "(get now key state = (Inl (CacheMissError k), state') \<longrightarrow> state' = state) \<and>
   (set_op config now key v state = (Inl (CacheFullError m n), state') \<longrightarrow> state' = state)"
  by (auto simp: get_def dest: set_op_error split: option.splits if_splits)

theorem failed_calls_leave_state_witness:
  "get 5 ''b'' [('''', \<lparr>entry_value = 1::nat, cachedAt = 0, expiresAt = 300000, accessCount = 0\<rparr>)]
     = (Inl (CacheMissError ''b''),
        [('''', \<lparr>entry_value = 1, cachedAt = 0, expiresAt = 300000, accessCount = 0\<rparr>)]) \<and>
   set_op \<lparr>enabled = True, ttlSeconds = 300, maxSize = 1\<rparr> 5 ''b'' (7::nat)
      [('''', \<lparr>entry_value = 1, cachedAt = 0, expiresAt = 300000, accessCount = 0\<rparr>)]
     = (Inl (CacheFullError 1 1),
        [('''', \<lparr>entry_value = 1, cachedAt = 0, expiresAt = 300000, accessCount = 0\<rparr>)])"
proof -
  let ?config = "\<lparr>enabled = True, ttlSeconds = 300, maxSize = 1\<rparr>"
  let ?s = "[('''', \<lparr>entry_value = 1::nat, cachedAt = 0, expiresAt = 300000, accessCount = 0\<rparr>)]"
  obtain r1 s1 where g: "get 5 ''b'' ?s = (r1, s1)" by (cases "get 5 ''b'' ?s")
  have r1: "r1 = Inl (CacheMissError ''b'')" using g by (simp add: get_def Map_get_def)
  obtain r2 s2 where s: "set_op ?config 5 ''b'' 7 ?s = (r2, s2)"
    by (cases "set_op ?config 5 ''b'' 7 ?s")
  have r2: "r2 = Inl (CacheFullError 1 1)"
    using s by (simp add: set_op_def Map_has_def truthy_def)
  have "s1 = ?s"
    using failed_calls_leave_state[where now = 5 and key = "''b''" and state = ?s
        and k = "''b''" and state' = s1] g r1 by simp
  moreover have "s2 = ?s"
    using failed_calls_leave_state[where now = 5 and key = "''b''" and state = ?s
        and config = ?config and v = 7 and m = 1 and n = 1 and state' = s2] s r2 by simp
  ultimately show ?thesis using g r1 s r2 by simp
qed

end
